theory Spec2Isabelle
  imports Complex_Main
begin

section \<open>The 2048 board engine of components/2048-game.tsx\<close>

text \<open>
  Tile values are JavaScript numbers that only ever hold 0 or small powers of two; they are
  modelled as \<open>int\<close>. A board is an array of SIZE rows of SIZE numbers. Every index the
  code reads lies inside such a board; the theorems about the cells of a board therefore
  carry \<open>wf_board\<close> as a hypothesis, and \<open>xs ! i\<close> is only ever reasoned about in
  range.
\<close>

definition SIZE :: nat where
  "SIZE = 4"

type_synonym board = "int list list"

datatype direction = Up | Down | Left | Right

definition wf_board :: "board \<Rightarrow> bool" where
  "wf_board b \<longleftrightarrow> length b = SIZE \<and> list_all (\<lambda>row. length row = SIZE) b"

subsection \<open>slideAndMerge\<close>

text \<open>
  The \<open>for\<close> loop of slideAndMerge: index \<open>i\<close>, the flag \<open>skip\<close> and the array
  \<open>merged\<close> are the loop state.
\<close>

function merge_loop :: "int list \<Rightarrow> nat \<Rightarrow> bool \<Rightarrow> int list \<Rightarrow> int list" where
  "merge_loop filtered i skip merged =
     (if i < length filtered then
        (if skip then merge_loop filtered (i + 1) False merged
         else if i + 1 < length filtered \<and> filtered ! i = filtered ! (i + 1)
         then merge_loop filtered (i + 1) True (merged @ [filtered ! i * 2])
         else merge_loop filtered (i + 1) skip (merged @ [filtered ! i]))
      else merged)"
  by pat_completeness auto
termination
  by (relation "measure (\<lambda>(filtered, i, skip, merged). length filtered - i)") auto

declare merge_loop.simps [simp del]

text \<open>The \<open>while (merged.length < SIZE) merged.push(0)\<close> loop.\<close>

function pad_loop :: "int list \<Rightarrow> int list" where
  "pad_loop merged = (if length merged < SIZE then pad_loop (merged @ [0]) else merged)"
  by pat_completeness auto
termination
  by (relation "measure (\<lambda>merged. SIZE - length merged)") auto

declare pad_loop.simps [simp del]

definition slideAndMerge :: "int list \<Rightarrow> int list" where
  "slideAndMerge row =
     (let filtered = filter (\<lambda>v. v \<noteq> 0) row;
          merged = merge_loop filtered 0 False []
      in pad_loop merged)"

subsection \<open>slideAndMergeLine as the specification words it\<close>

text \<open>
  Step 2 of the specification: scanning left to right, an adjacent equal pair not yet
  consumed is replaced by its sum and both are consumed; the result of a merge is not
  merged again in the same pass.
\<close>

fun spec_merge_pairs :: "int list \<Rightarrow> int list" where
  "spec_merge_pairs (x # y # rest) =
     (if x = y then (x + y) # spec_merge_pairs rest else x # spec_merge_pairs (y # rest))"
| "spec_merge_pairs xs = xs"

definition spec_slideAndMergeLine :: "int list \<Rightarrow> int list" where
  "spec_slideAndMergeLine line =
     (let compacted = filter (\<lambda>v. v \<noteq> 0) line;
          merged = spec_merge_pairs compacted
      in merged @ replicate (SIZE - length merged) 0)"

subsection \<open>cloneBoard, transpose, reverseRows\<close>

text \<open>
  Arrays are values here, so the copy made by cloneBoard is the board itself. The copy
  matters in the source only because move overwrites rows of its working board and
  addRandomTile writes into the board it is given: move works on the clone, and handleMove
  passes addRandomTile the fresh board that move returned, so the board held in the
  component state is never written in place.
\<close>

definition cloneBoard :: "board \<Rightarrow> board" where
  "cloneBoard board = map (\<lambda>row. row) board"

definition transpose_board :: "board \<Rightarrow> board" where
  "transpose_board board = map (\<lambda>i. map (\<lambda>row. row ! i) board) [0..<length (board ! 0)]"

definition reverseRows :: "board \<Rightarrow> board" where
  "reverseRows board = map (\<lambda>row. rev row) board"

subsection \<open>move\<close>

text \<open>
  \<open>merged.some((v, i) => v !== newBoard[r][i])\<close>: the callback runs over the indices of
  \<open>merged\<close>; a read past the end of the old row yields \<open>undefined\<close>, which differs
  from every number.
\<close>

definition some_differs :: "int list \<Rightarrow> int list \<Rightarrow> bool" where
  "some_differs merged row =
     list_ex (\<lambda>i. length row \<le> i \<or> merged ! i \<noteq> row ! i) [0..<length merged]"

text \<open>
  The loop \<open>for (let r = 0; r < SIZE; r++)\<close> that each of the four branches of move
  runs on its re-oriented board; \<open>newBoard\<close> and \<open>moved\<close> are the loop state.
\<close>

function slide_rows :: "nat \<Rightarrow> board \<Rightarrow> bool \<Rightarrow> board \<times> bool" where
  "slide_rows r newBoard moved =
     (if r < SIZE then
        (let merged = slideAndMerge (newBoard ! r);
             moved' = (if \<not> moved \<and> some_differs merged (newBoard ! r) then True else moved)
         in slide_rows (r + 1) (newBoard[r := merged]) moved')
      else (newBoard, moved))"
  by pat_completeness auto
termination
  by (relation "measure (\<lambda>(r, newBoard, moved). SIZE - r)") auto

declare slide_rows.simps [simp del]

text \<open>The result object \<open>{ board, moved }\<close> is the pair \<open>(board, moved)\<close>.\<close>

fun move :: "board \<Rightarrow> direction \<Rightarrow> board \<times> bool" where
  "move board Up =
     (let newBoard = transpose_board (cloneBoard board);
          (newBoard, moved) = slide_rows 0 newBoard False
      in (transpose_board newBoard, moved))"
| "move board Down =
     (let newBoard = reverseRows (transpose_board (cloneBoard board));
          (newBoard, moved) = slide_rows 0 newBoard False
      in (transpose_board (reverseRows newBoard), moved))"
| "move board Left =
     (let newBoard = cloneBoard board;
          (newBoard, moved) = slide_rows 0 newBoard False
      in (newBoard, moved))"
| "move board Right =
     (let newBoard = reverseRows (cloneBoard board);
          (newBoard, moved) = slide_rows 0 newBoard False
      in (reverseRows newBoard, moved))"

subsection \<open>hasMoves\<close>

text \<open>The inner and the outer loop of hasMoves; each \<open>return true\<close> ends both.\<close>

function hasMoves_cols :: "board \<Rightarrow> nat \<Rightarrow> nat \<Rightarrow> bool" where
  "hasMoves_cols board r c =
     (if c < SIZE then
        (if board ! r ! c = 0 then True
         else if c + 1 < SIZE \<and> board ! r ! c = board ! r ! (c + 1) then True
         else if r + 1 < SIZE \<and> board ! r ! c = board ! (r + 1) ! c then True
         else hasMoves_cols board r (c + 1))
      else False)"
  by pat_completeness auto
termination
  by (relation "measure (\<lambda>(board, r, c). SIZE - c)") auto

declare hasMoves_cols.simps [simp del]

function hasMoves_rows :: "board \<Rightarrow> nat \<Rightarrow> bool" where
  "hasMoves_rows board r =
     (if r < SIZE then
        (if hasMoves_cols board r 0 then True else hasMoves_rows board (r + 1))
      else False)"
  by pat_completeness auto
termination
  by (relation "measure (\<lambda>(board, r). SIZE - r)") auto

declare hasMoves_rows.simps [simp del]

definition hasMoves :: "board \<Rightarrow> bool" where
  "hasMoves board = hasMoves_rows board 0"

subsection \<open>addRandomTile\<close>

text \<open>The two loops that push the coordinates of the empty cells onto the array \<open>empty\<close>
  (here \<open>empties\<close>), in row-major order.\<close>

function empty_cols :: "board \<Rightarrow> nat \<Rightarrow> nat \<Rightarrow> (nat \<times> nat) list \<Rightarrow> (nat \<times> nat) list" where
  "empty_cols board r c empties =
     (if c < SIZE then
        empty_cols board r (c + 1) (if board ! r ! c = 0 then empties @ [(r, c)] else empties)
      else empties)"
  by pat_completeness auto
termination
  by (relation "measure (\<lambda>(board, r, c, empties). SIZE - c)") auto

declare empty_cols.simps [simp del]

function empty_rows :: "board \<Rightarrow> nat \<Rightarrow> (nat \<times> nat) list \<Rightarrow> (nat \<times> nat) list" where
  "empty_rows board r empties =
     (if r < SIZE then empty_rows board (r + 1) (empty_cols board r 0 empties) else empties)"
  by pat_completeness auto
termination
  by (relation "measure (\<lambda>(board, r, empties). SIZE - r)") auto

declare empty_rows.simps [simp del]

text \<open>
  Math.random() returns a Number of the interval from 0 (included) to 1 (excluded). A
  Number is an IEEE 754 binary64 value, so such a result is \<open>mant / 2 ^ expo\<close> with
  \<open>mant < 2 ^ 53\<close> and \<open>53 \<le> expo \<le> 1074\<close>; a draw is the pair \<open>(mant, expo)\<close>.
\<close>

type_synonym draw = "nat \<times> nat"

definition unit_double :: "draw \<Rightarrow> bool" where
  "unit_double u \<longleftrightarrow> fst u < 2 ^ 53 \<and> 53 \<le> snd u \<and> snd u \<le> 1074"

definition draw_value :: "draw \<Rightarrow> real" where
  "draw_value u = real (fst u) / 2 ^ snd u"

text \<open>The number of binary digits of a natural number.\<close>

fun bit_length :: "nat \<Rightarrow> nat" where
  "bit_length n = (if n = 0 then 0 else Suc (bit_length (n div 2)))"

declare bit_length.simps [simp del]

text \<open>\<open>N / 2 ^ s\<close> rounded to the nearest integer, a tie going to the even one.\<close>

definition round_half_even :: "nat \<Rightarrow> nat \<Rightarrow> nat" where
  "round_half_even N s =
     (let q = N div 2 ^ s; r = N mod 2 ^ s
      in if 2 * r < 2 ^ s then q
         else if 2 ^ s < 2 * r then q + 1
         else if even q then q else q + 1)"

text \<open>
  \<open>Math.random() * empty.length\<close> is a multiplication of Numbers: the exact product
  \<open>mant * n / 2 ^ expo\<close> rounded to 53 significant bits, to the nearest, ties to even
  (the length \<open>n\<close>, at most 16, is exact, and the product neither overflows nor falls
  below the subnormal spacing \<open>1 / 2 ^ 1074\<close>). times_length is the numerator of the
  rounded product over \<open>2 ^ expo\<close>, and random_index is its Math.floor.
\<close>

definition times_length :: "draw \<Rightarrow> nat \<Rightarrow> nat" where
  "times_length u n =
     (let N = fst u * n; s = bit_length N - 53 in round_half_even N s * 2 ^ s)"

definition random_index :: "draw \<Rightarrow> nat \<Rightarrow> nat" where
  "random_index u n = times_length u n div 2 ^ snd u"

text \<open>
  The random source is explicit: \<open>u1\<close> and \<open>u2\<close> are the results of the first and the
  second call of Math.random(). Neither is drawn when there is no empty cell. The literal
  \<open>0.9\<close> is the Number \<open>8106479329266893 / 2 ^ 53\<close>; a draw is below it exactly when
  it is below \<open>9 / 10\<close> (lemma \<open>draw_below_0_9\<close>).
\<close>

definition addRandomTile :: "board \<Rightarrow> draw \<Rightarrow> draw \<Rightarrow> board" where
  "addRandomTile board u1 u2 =
     (let empties = empty_rows board 0 []
      in if length empties = 0 then board
         else (let (r, c) = empties ! random_index u1 (length empties)
               in board[r := (board ! r)[c := (if draw_value u2 < 9 / 10 then 2 else 4)]]))"

subsection \<open>The component state and handleMove\<close>

record session =
  board :: board
  score :: int
  gameOver :: bool

definition handleMove :: "session \<Rightarrow> direction \<Rightarrow> draw \<Rightarrow> draw \<Rightarrow> session" where
  "handleMove s direction u1 u2 =
     (if gameOver s then s
      else (let (newBoard, moved) = move (board s) direction
            in if \<not> moved then s
               else (let addedBoard = addRandomTile newBoard u1 u2;
                         newScore = foldl (\<lambda>a b. a + b) 0 (concat addedBoard);
                         s' = s\<lparr>board := addedBoard, score := newScore\<rparr>
                     in if \<not> hasMoves addedBoard then s'\<lparr>gameOver := True\<rparr> else s')))"

text \<open>
  A run of directional inputs, from the keyboard or the buttons: each input calls
  handleMove on the current state, with the random draws that call would make.
\<close>

fun handleMoves :: "session \<Rightarrow> (direction \<times> draw \<times> draw) list \<Rightarrow> session" where
  "handleMoves s [] = s"
| "handleMoves s ((direction, u1, u2) # inputs) =
     handleMoves (handleMove s direction u1 u2) inputs"

subsection \<open>move as the specification words it\<close>

text \<open>
  The transposed board has in row \<open>i\<close>, column \<open>j\<close> the cell of row \<open>j\<close>, column \<open>i\<close>;
  reversing a row is \<open>rev\<close>. Each direction is the chain of transforms the specification
  lists for it, with slideAndMerge applied to every row in the middle.
\<close>

definition spec_transpose :: "board \<Rightarrow> board" where
  "spec_transpose b = map (\<lambda>i. map (\<lambda>j. b ! j ! i) [0..<SIZE]) [0..<SIZE]"

fun spec_move :: "board \<Rightarrow> direction \<Rightarrow> board" where
  "spec_move b Left = map slideAndMerge b"
| "spec_move b Right = map rev (map slideAndMerge (map rev b))"
| "spec_move b Up = spec_transpose (map slideAndMerge (spec_transpose b))"
| "spec_move b Down =
     spec_transpose (map rev (map slideAndMerge (map rev (spec_transpose b))))"

subsection \<open>Vocabulary of the properties\<close>

definition board_sum :: "board \<Rightarrow> int" where
  "board_sum b = sum_list (concat b)"

text \<open>Two neighbouring cells of a line hold the same non-zero value.\<close>

definition adjacent_equal :: "int list \<Rightarrow> bool" where
  "adjacent_equal line =
     list_ex (\<lambda>i. line ! i \<noteq> 0 \<and> line ! i = line ! (i + 1)) [0..<length line - 1]"

text \<open>The lines along which a direction slides: the rows, or the columns.\<close>

fun lines_of :: "board \<Rightarrow> direction \<Rightarrow> int list list" where
  "lines_of b Left = b"
| "lines_of b Right = b"
| "lines_of b Up = spec_transpose b"
| "lines_of b Down = spec_transpose b"

section \<open>Properties\<close>

subsection \<open>The line algorithm\<close>

lemma pad_loop_eq: "pad_loop merged = merged @ replicate (SIZE - length merged) 0"
proof (induction merged rule: pad_loop.induct)
  case (1 merged)
  show ?case
  proof (cases "length merged < SIZE")
    case True
    then have "SIZE - length merged = Suc (SIZE - length (merged @ [0]))"
      by simp
    then have "replicate (SIZE - length merged) (0::int) =
        0 # replicate (SIZE - length (merged @ [0])) 0"
      by (simp only: replicate_Suc)
    moreover have "pad_loop merged = pad_loop (merged @ [0])"
      using True by (subst pad_loop.simps) simp
    ultimately show ?thesis using 1 True by simp
  next
    case False
    then show ?thesis by (subst pad_loop.simps) simp
  qed
qed

lemma spec_merge_pairs_drop:
  assumes "i < length xs"
  shows "spec_merge_pairs (drop i xs) =
     (if i + 1 < length xs \<and> xs ! i = xs ! (i + 1)
      then (xs ! i * 2) # spec_merge_pairs (drop (i + 2) xs)
      else xs ! i # spec_merge_pairs (drop (i + 1) xs))"
proof (cases "i + 1 < length xs")
  case True
  then have "drop i xs = xs ! i # xs ! (i + 1) # drop (i + 2) xs"
    by (metis Cons_nth_drop_Suc Suc_eq_plus1 add_2_eq_Suc' assms)
  moreover have "drop (i + 1) xs = xs ! (i + 1) # drop (i + 2) xs"
    using True by (metis Cons_nth_drop_Suc Suc_eq_plus1 add_2_eq_Suc')
  ultimately show ?thesis using True by simp
next
  case False
  then have "drop (i + 1) xs = []"
    by simp
  moreover from this have "drop i xs = [xs ! i]"
    using Cons_nth_drop_Suc [OF assms] by simp
  ultimately show ?thesis using False by simp
qed

lemma merge_loop_eq:
  "merge_loop filtered i skip merged =
     merged @ spec_merge_pairs (drop (if skip then i + 1 else i) filtered)"
proof (induction filtered i skip merged rule: merge_loop.induct)
  case (1 filtered i skip merged)
  show ?case
  proof (cases "i < length filtered")
    case False
    then show ?thesis by (subst merge_loop.simps) simp
  next
    case True
    show ?thesis
    proof (cases skip)
      case True
      have "merge_loop filtered i skip merged = merge_loop filtered (i + 1) False merged"
        using True \<open>i < length filtered\<close> by (subst merge_loop.simps) simp
      with \<open>i < length filtered\<close> 1(1) True show ?thesis by simp
    next
      case False
      show ?thesis
      proof (cases "i + 1 < length filtered \<and> filtered ! i = filtered ! (i + 1)")
        case eq: True
        have "merge_loop filtered i skip merged =
            merge_loop filtered (i + 1) True (merged @ [filtered ! i * 2])"
          using True False eq by (subst merge_loop.simps) auto
        also have "\<dots> = (merged @ [filtered ! i * 2]) @ spec_merge_pairs (drop (i + 2) filtered)"
          using 1(2) True False eq by simp
        finally show ?thesis
          using False eq spec_merge_pairs_drop [OF True] by auto
      next
        case ne: False
        have "merge_loop filtered i skip merged =
            merge_loop filtered (i + 1) skip (merged @ [filtered ! i])"
          using True False ne by (subst merge_loop.simps) auto
        also have "\<dots> = (merged @ [filtered ! i]) @ spec_merge_pairs (drop (i + 1) filtered)"
          using 1(3) True False ne by simp
        finally show ?thesis
          using False ne spec_merge_pairs_drop [OF True] by auto
      qed
    qed
  qed
qed

lemma slideAndMerge_eq_spec: "slideAndMerge row = spec_slideAndMergeLine row"
  by (simp add: slideAndMerge_def spec_slideAndMergeLine_def pad_loop_eq merge_loop_eq)

lemma length_spec_merge_pairs_le: "length (spec_merge_pairs xs) \<le> length xs"
  by (induction xs rule: spec_merge_pairs.induct) auto

lemma length_slideAndMerge:
  assumes "length row \<le> SIZE"
  shows "length (slideAndMerge row) = SIZE"
proof -
  have "length (spec_merge_pairs (filter (\<lambda>v. v \<noteq> 0) row)) \<le> length row"
    using length_spec_merge_pairs_le [of "filter (\<lambda>v. v \<noteq> 0) row"] length_filter_le [of "\<lambda>v. v \<noteq> 0" row]
    by linarith
  with assms show ?thesis
    by (simp add: slideAndMerge_eq_spec spec_slideAndMergeLine_def Let_def)
qed

text \<open>
  C1. For a line of SIZE integers, slideAndMerge returns what the specification describes:
  the zeros removed in order, each adjacent equal pair not consumed by an earlier merge
  replaced by its sum from the left (no merge of a merge result in the same pass), and
  zeros appended up to length SIZE. In particular [2,2,2,2] gives [4,4,0,0], [2,2,2,0]
  gives [4,2,0,0], [0,2,0,2] gives [4,0,0,0] and [2,4,2,4] stays [2,4,2,4].
\<close>

theorem slideAndMerge_is_spec_line:
  assumes "length row = SIZE"
  shows "slideAndMerge row = spec_slideAndMergeLine row \<and>
         length (slideAndMerge row) = SIZE \<and>
         slideAndMerge [2, 2, 2, 2] = [4, 4, 0, 0] \<and>
         slideAndMerge [2, 2, 2, 0] = [4, 2, 0, 0] \<and>
         slideAndMerge [0, 2, 0, 2] = [4, 0, 0, 0] \<and>
         slideAndMerge [2, 4, 2, 4] = [2, 4, 2, 4]"
proof -
  have "slideAndMerge [2, 2, 2, 2] = [4, 4, 0, 0]"
    by code_simp
  moreover have "slideAndMerge [2, 2, 2, 0] = [4, 2, 0, 0]"
    by code_simp
  moreover have "slideAndMerge [0, 2, 0, 2] = [4, 0, 0, 0]"
    by code_simp
  moreover have "slideAndMerge [2, 4, 2, 4] = [2, 4, 2, 4]"
    by code_simp
  moreover have "slideAndMerge row = spec_slideAndMergeLine row"
    by (rule slideAndMerge_eq_spec)
  moreover have "length (slideAndMerge row) = SIZE"
    using assms by (simp add: length_slideAndMerge)
  ultimately show ?thesis
    by blast
qed

theorem slideAndMerge_is_spec_line_witness:
  "length [0, 2, 2, 4 :: int] = SIZE \<and> slideAndMerge [0, 2, 2, 4] = [4, 4, 0, 0]"
proof -
  have len: "length [0, 2, 2, 4 :: int] = SIZE"
    by (simp add: SIZE_def)
  have "spec_slideAndMergeLine [0, 2, 2, 4] = [4, 4, 0, 0]"
    by code_simp
  with slideAndMerge_is_spec_line [OF len] len show ?thesis
    by simp
qed

subsection \<open>move\<close>

lemma some_differs_iff:
  assumes "length merged = length row"
  shows "some_differs merged row \<longleftrightarrow> merged \<noteq> row"
proof
  assume "some_differs merged row"
  then obtain i where "i < length merged" "merged ! i \<noteq> row ! i"
    using assms by (auto simp: some_differs_def list_ex_iff)
  then show "merged \<noteq> row" by auto
next
  assume "merged \<noteq> row"
  then obtain i where "i < length merged" "merged ! i \<noteq> row ! i"
    using assms nth_equalityI [of merged row] by blast
  then show "some_differs merged row"
    by (auto simp: some_differs_def list_ex_iff)
qed

lemma slide_rows_eq:
  "length b = SIZE \<Longrightarrow>
   slide_rows r b moved =
     (take r b @ map slideAndMerge (drop r b),
      moved \<or> (\<exists>row \<in> set (drop r b). some_differs (slideAndMerge row) row))"
proof (induction r b moved rule: slide_rows.induct)
  case (1 r newBoard moved)
  show ?case
  proof (cases "r < SIZE")
    case False
    with 1(2) show ?thesis by (subst slide_rows.simps) simp
  next
    case True
    define merged where "merged = slideAndMerge (newBoard ! r)"
    define moved' where "moved' = (if \<not> moved \<and> some_differs merged (newBoard ! r) then True else moved)"
    have step: "slide_rows r newBoard moved = slide_rows (r + 1) (newBoard[r := merged]) moved'"
      using True by (subst slide_rows.simps) (simp add: merged_def moved'_def Let_def)
    have r: "r < length newBoard" using True 1(2) by simp
    have d: "drop r newBoard = newBoard ! r # drop (r + 1) newBoard"
      using r by (simp add: Cons_nth_drop_Suc)
    have t: "take (r + 1) (newBoard[r := merged]) = take r newBoard @ [merged]"
      using r by (simp add: take_Suc_conv_app_nth)
    have IH: "slide_rows (r + 1) (newBoard[r := merged]) moved' =
       (take (r + 1) (newBoard[r := merged]) @ map slideAndMerge (drop (r + 1) (newBoard[r := merged])),
        moved' \<or> (\<exists>row \<in> set (drop (r + 1) (newBoard[r := merged])). some_differs (slideAndMerge row) row))"
      using 1(1) [OF True merged_def moved'_def] 1(2) by simp
    show ?thesis
      unfolding step IH t d by (auto simp: merged_def moved'_def)
  qed
qed

lemma wf_board_nth: "wf_board b \<Longrightarrow> r < SIZE \<Longrightarrow> length (b ! r) = SIZE"
  by (simp add: wf_board_def list_all_length)

lemma wf_board_length: "wf_board b \<Longrightarrow> length b = SIZE"
  by (simp add: wf_board_def)

lemma wf_board_row: "wf_board b \<Longrightarrow> row \<in> set b \<Longrightarrow> length row = SIZE"
  by (simp add: wf_board_def list_all_iff)

lemma wf_board_spec_transpose: "wf_board (spec_transpose b)"
  by (simp add: wf_board_def spec_transpose_def list_all_iff)

lemma wf_board_map_rev: "wf_board b \<Longrightarrow> wf_board (map rev b)"
  by (simp add: wf_board_def list_all_iff)

lemma wf_board_map_slide: "wf_board b \<Longrightarrow> wf_board (map slideAndMerge b)"
  by (simp add: wf_board_def list_all_iff length_slideAndMerge)

lemma spec_transpose_nth:
  "i < SIZE \<Longrightarrow> j < SIZE \<Longrightarrow> spec_transpose b ! i ! j = b ! j ! i"
  by (simp add: spec_transpose_def)

lemma wf_board_eqI:
  assumes "wf_board a" "wf_board b"
    and "\<And>r c. r < SIZE \<Longrightarrow> c < SIZE \<Longrightarrow> a ! r ! c = b ! r ! c"
  shows "a = b"
proof (rule nth_equalityI)
  show "length a = length b"
    using assms(1,2) by (simp add: wf_board_length)
next
  fix r assume "r < length a"
  then have r: "r < SIZE" using assms(1) by (simp add: wf_board_length)
  show "a ! r = b ! r"
  proof (rule nth_equalityI)
    show "length (a ! r) = length (b ! r)"
      using assms(1,2) r by (simp add: wf_board_nth)
  next
    fix c assume "c < length (a ! r)"
    then have "c < SIZE" using assms(1) r by (simp add: wf_board_nth)
    with r show "a ! r ! c = b ! r ! c" by (rule assms(3))
  qed
qed

lemma wf_board_neq_iff:
  assumes "wf_board a" "wf_board b"
  shows "a \<noteq> b \<longleftrightarrow> (\<exists>r<SIZE. \<exists>c<SIZE. a ! r ! c \<noteq> b ! r ! c)"
  using wf_board_eqI [OF assms] by blast

lemma spec_transpose_involution: "wf_board b \<Longrightarrow> spec_transpose (spec_transpose b) = b"
  by (rule wf_board_eqI) (simp_all add: wf_board_spec_transpose spec_transpose_nth)

lemma transpose_board_eq_spec:
  assumes "wf_board b"
  shows "transpose_board b = spec_transpose b"
proof -
  have "map (\<lambda>row. row ! i) b = map (\<lambda>j. b ! j ! i) [0..<SIZE]" for i
    using assms by (simp add: wf_board_length map_nth [symmetric] list_eq_iff_nth_eq)
  moreover have "length (b ! 0) = SIZE"
    using assms by (simp add: wf_board_nth SIZE_def)
  ultimately show ?thesis
    by (simp add: transpose_board_def spec_transpose_def)
qed

lemma map_rev_involution: "map rev (map rev b) = b"
  by (simp add: comp_def)

lemma slide_rows_wf:
  assumes "wf_board b"
  shows "slide_rows 0 b False = (map slideAndMerge b, map slideAndMerge b \<noteq> b)"
proof -
  have "(\<exists>row \<in> set b. some_differs (slideAndMerge row) row) \<longleftrightarrow>
      (\<exists>row \<in> set b. slideAndMerge row \<noteq> row)"
    using assms by (auto simp: some_differs_iff length_slideAndMerge wf_board_row)
  also have "\<dots> \<longleftrightarrow> map slideAndMerge b \<noteq> b"
    using map_idI [of b slideAndMerge] by (induction b) auto
  finally show ?thesis
    using assms by (simp add: slide_rows_eq wf_board_length)
qed

lemma move_eq_spec:
  assumes "wf_board b"
  shows "move b d = (spec_move b d, spec_move b d \<noteq> b)"
proof (cases d)
  case Left
  then show ?thesis
    using assms by (simp add: cloneBoard_def slide_rows_wf)
next
  case Right
  have "map rev (map slideAndMerge (map rev b)) \<noteq> b \<longleftrightarrow> map slideAndMerge (map rev b) \<noteq> map rev b"
    by (metis map_rev_involution)
  then show ?thesis
    using assms Right
    by (simp add: cloneBoard_def reverseRows_def slide_rows_wf wf_board_map_rev del: map_map)
next
  case Up
  let ?t = "spec_transpose b"
  have "spec_transpose (map slideAndMerge ?t) \<noteq> b \<longleftrightarrow> map slideAndMerge ?t \<noteq> ?t"
    by (metis assms spec_transpose_involution wf_board_map_slide wf_board_spec_transpose)
  then show ?thesis
    using assms Up
    by (simp add: cloneBoard_def transpose_board_eq_spec slide_rows_wf
        wf_board_spec_transpose wf_board_map_slide)
next
  case Down
  let ?t = "map rev (spec_transpose b)"
  have wf: "wf_board ?t"
    by (rule wf_board_map_rev) (rule wf_board_spec_transpose)
  have wf': "wf_board (map slideAndMerge ?t)"
    using wf by (rule wf_board_map_slide)
  have "spec_transpose (map rev (map slideAndMerge ?t)) \<noteq> b \<longleftrightarrow> map slideAndMerge ?t \<noteq> ?t"
    by (metis assms spec_transpose_involution wf wf' map_rev_involution wf_board_map_rev)
  then show ?thesis
    using assms Down wf wf'
    by (simp add: cloneBoard_def reverseRows_def transpose_board_eq_spec slide_rows_wf
        wf_board_spec_transpose wf_board_map_rev del: map_map)
qed

lemma wf_board_spec_move: "wf_board b \<Longrightarrow> wf_board (spec_move b d)"
  by (cases d)
    (simp_all add: wf_board_spec_transpose wf_board_map_slide wf_board_map_rev del: map_map)

text \<open>
  C2. For a SIZE x SIZE board, the board returned by move is the one obtained by
  re-orienting, sliding every row with slideAndMerge, and re-orienting back: left slides
  the rows as they are; right reverses each row, slides, reverses back; up transposes,
  slides, transposes back; down transposes, reverses each row, slides, reverses each row,
  transposes back.
\<close>

theorem move_board_is_spec_move:
  assumes "wf_board b"
  shows "fst (move b d) = spec_move b d"
  using assms by (simp add: move_eq_spec)

theorem move_board_is_spec_move_witness:
  "wf_board [[2, 0, 2, 4], [0, 4, 0, 0], [2, 4, 8, 0], [2, 0, 8, 4]] \<and>
   fst (move [[2, 0, 2, 4], [0, 4, 0, 0], [2, 4, 8, 0], [2, 0, 8, 4]] Down) =
     [[0, 0, 0, 0], [0, 0, 0, 0], [2, 0, 2, 0], [4, 8, 16, 8]]"
proof -
  have wf: "wf_board [[2, 0, 2, 4], [0, 4, 0, 0], [2, 4, 8, 0], [2, 0, 8, 4]]"
    by (simp add: wf_board_def SIZE_def)
  have "spec_move [[2, 0, 2, 4], [0, 4, 0, 0], [2, 4, 8, 0], [2, 0, 8, 4]] Down =
      [[0, 0, 0, 0], [0, 0, 0, 0], [2, 0, 2, 0], [4, 8, 16, 8]]"
    by code_simp
  with move_board_is_spec_move [OF wf, of Down] wf show ?thesis
    by simp
qed

text \<open>
  C3. For a SIZE x SIZE board and any direction, the flag \<open>moved\<close> returned by move is
  true exactly when the returned board differs from the input board in at least one cell:
  the row-by-row test made on the re-oriented board amounts to a cell-by-cell comparison
  of the two boards in the original orientation.
\<close>

theorem move_moved_iff_differs:
  assumes "wf_board b"
  shows "snd (move b d) \<longleftrightarrow> (\<exists>r<SIZE. \<exists>c<SIZE. fst (move b d) ! r ! c \<noteq> b ! r ! c)"
  using assms wf_board_neq_iff [OF wf_board_spec_move [OF assms, of d] assms]
  by (simp add: move_eq_spec)

theorem move_moved_iff_differs_witness:
  "wf_board [[2, 0, 2, 4], [0, 4, 0, 0], [2, 4, 8, 0], [2, 0, 8, 4]] \<and>
   snd (move [[2, 0, 2, 4], [0, 4, 0, 0], [2, 4, 8, 0], [2, 0, 8, 4]] Right) \<and>
   (\<exists>r<SIZE. \<exists>c<SIZE.
      fst (move [[2, 0, 2, 4], [0, 4, 0, 0], [2, 4, 8, 0], [2, 0, 8, 4]] Right) ! r ! c \<noteq>
      [[2, 0, 2, 4], [0, 4, 0, 0], [2, 4, 8, 0], [2, 0, 8, 4]] ! r ! c)"
proof -
  have wf: "wf_board [[2, 0, 2, 4], [0, 4, 0, 0], [2, 4, 8, 0], [2, 0, 8, 4]]"
    by (simp add: wf_board_def SIZE_def)
  have ne: "spec_move [[2, 0, 2, 4], [0, 4, 0, 0], [2, 4, 8, 0], [2, 0, 8, 4]] Right \<noteq>
      [[2, 0, 2, 4], [0, 4, 0, 0], [2, 4, 8, 0], [2, 0, 8, 4]]"
    by code_simp
  have "snd (move [[2, 0, 2, 4], [0, 4, 0, 0], [2, 4, 8, 0], [2, 0, 8, 4]] Right)"
    unfolding move_eq_spec [OF wf] snd_conv by (rule ne)
  with move_moved_iff_differs [OF wf, of Right] wf show ?thesis
    by simp
qed

subsection \<open>hasMoves\<close>

lemma hasMoves_cols_iff:
  "hasMoves_cols b r c \<longleftrightarrow>
     (\<exists>c'. c \<le> c' \<and> c' < SIZE \<and>
        (b ! r ! c' = 0 \<or> (c' + 1 < SIZE \<and> b ! r ! c' = b ! r ! (c' + 1)) \<or>
         (r + 1 < SIZE \<and> b ! r ! c' = b ! (r + 1) ! c')))"
proof (induction b r c rule: hasMoves_cols.induct)
  case (1 b r c)
  let ?hit = "\<lambda>c'. b ! r ! c' = 0 \<or> (c' + 1 < SIZE \<and> b ! r ! c' = b ! r ! (c' + 1)) \<or>
         (r + 1 < SIZE \<and> b ! r ! c' = b ! (r + 1) ! c')"
  show ?case
  proof (cases "c < SIZE")
    case False
    then show ?thesis by (subst hasMoves_cols.simps) auto
  next
    case True
    show ?thesis
    proof (cases "?hit c")
      case hit: True
      then have "hasMoves_cols b r c"
        using True by (subst hasMoves_cols.simps) auto
      moreover have "\<exists>c'. c \<le> c' \<and> c' < SIZE \<and> ?hit c'"
        using True hit by blast
      ultimately show ?thesis by blast
    next
      case miss: False
      then have "hasMoves_cols b r c = hasMoves_cols b r (c + 1)"
        using True by (subst hasMoves_cols.simps) auto
      also have "\<dots> \<longleftrightarrow> (\<exists>c'. c + 1 \<le> c' \<and> c' < SIZE \<and> ?hit c')"
        using 1 True miss by blast
      also have "\<dots> \<longleftrightarrow> (\<exists>c'. c \<le> c' \<and> c' < SIZE \<and> ?hit c')"
        using miss by (metis Suc_eq_plus1 Suc_leI le_neq_implies_less Suc_leD)
      finally show ?thesis .
    qed
  qed
qed

lemma hasMoves_rows_iff:
  "hasMoves_rows b r \<longleftrightarrow> (\<exists>r'. r \<le> r' \<and> r' < SIZE \<and> hasMoves_cols b r' 0)"
proof (induction b r rule: hasMoves_rows.induct)
  case (1 b r)
  show ?case
  proof (cases "r < SIZE")
    case False
    then show ?thesis by (subst hasMoves_rows.simps) auto
  next
    case True
    show ?thesis
    proof (cases "hasMoves_cols b r 0")
      case hit: True
      then have "hasMoves_rows b r"
        using True by (subst hasMoves_rows.simps) auto
      then show ?thesis using True hit by blast
    next
      case miss: False
      then have "hasMoves_rows b r = hasMoves_rows b (r + 1)"
        using True by (subst hasMoves_rows.simps) auto
      also have "\<dots> \<longleftrightarrow> (\<exists>r'. r + 1 \<le> r' \<and> r' < SIZE \<and> hasMoves_cols b r' 0)"
        using 1 True miss by blast
      also have "\<dots> \<longleftrightarrow> (\<exists>r'. r \<le> r' \<and> r' < SIZE \<and> hasMoves_cols b r' 0)"
        using miss by (metis Suc_eq_plus1 Suc_leI le_neq_implies_less Suc_leD)
      finally show ?thesis .
    qed
  qed
qed

lemma hasMoves_iff_cells:
  "hasMoves b \<longleftrightarrow>
     (\<exists>r<SIZE. \<exists>c<SIZE.
        b ! r ! c = 0 \<or> (c + 1 < SIZE \<and> b ! r ! c = b ! r ! (c + 1)) \<or>
        (r + 1 < SIZE \<and> b ! r ! c = b ! (r + 1) ! c))"
  by (simp add: hasMoves_def hasMoves_rows_iff hasMoves_cols_iff)

text \<open>
  C4. For a SIZE x SIZE board, hasMoves returns true exactly when the board has an empty
  (zero) cell, or two horizontally adjacent cells with equal non-zero values, or two
  vertically adjacent cells with equal non-zero values; so it returns false exactly on
  the boards with no empty cell and no adjacent equal pair.
\<close>

theorem hasMoves_iff:
  assumes "wf_board b"
  shows "hasMoves b \<longleftrightarrow>
     (\<exists>r<SIZE. \<exists>c<SIZE. b ! r ! c = 0) \<or>
     (\<exists>r<SIZE. \<exists>c. c + 1 < SIZE \<and> b ! r ! c \<noteq> 0 \<and> b ! r ! c = b ! r ! (c + 1)) \<or>
     (\<exists>r. \<exists>c<SIZE. r + 1 < SIZE \<and> b ! r ! c \<noteq> 0 \<and> b ! r ! c = b ! (r + 1) ! c)"
  (is "_ \<longleftrightarrow> ?rhs")
proof
  assume "hasMoves b"
  then obtain r c where rc: "r < SIZE" "c < SIZE"
    and hit: "b ! r ! c = 0 \<or> (c + 1 < SIZE \<and> b ! r ! c = b ! r ! (c + 1)) \<or>
        (r + 1 < SIZE \<and> b ! r ! c = b ! (r + 1) ! c)"
    unfolding hasMoves_iff_cells by blast
  show ?rhs
  proof (cases "b ! r ! c = 0")
    case True
    with rc show ?thesis by blast
  next
    case False
    with rc hit show ?thesis by blast
  qed
next
  assume ?rhs
  then show "hasMoves b"
    unfolding hasMoves_iff_cells
    by (metis add_lessD1)
qed

theorem hasMoves_iff_witness:
  "wf_board [[2, 4, 2, 4], [4, 2, 4, 2], [2, 4, 2, 4], [4, 2, 4, 2]] \<and>
   \<not> hasMoves [[2, 4, 2, 4], [4, 2, 4, 2], [2, 4, 2, 4], [4, 2, 4, 2]] \<and>
   \<not> (\<exists>r<SIZE. \<exists>c<SIZE. [[2, 4, 2, 4], [4, 2, 4, 2], [2, 4, 2, 4], [4, 2, 4, 2 :: int]] ! r ! c = 0)"
proof -
  have wf: "wf_board [[2, 4, 2, 4], [4, 2, 4, 2], [2, 4, 2, 4], [4, 2, 4, 2]]"
    by (simp add: wf_board_def SIZE_def)
  have "\<not> hasMoves [[2, 4, 2, 4], [4, 2, 4, 2], [2, 4, 2, 4], [4, 2, 4, 2]]"
    by code_simp
  with hasMoves_iff [OF wf] wf show ?thesis
    by blast
qed

subsection \<open>Moving twice in the same direction\<close>

lemma adjacent_equal_iff:
  "adjacent_equal line \<longleftrightarrow>
     (\<exists>i. i + 1 < length line \<and> line ! i \<noteq> 0 \<and> line ! i = line ! (i + 1))"
  by (auto simp: adjacent_equal_def list_ex_iff less_diff_conv)

lemma adjacent_equal_rev_imp:
  assumes "adjacent_equal (rev line)"
  shows "adjacent_equal line"
proof -
  from assms obtain i where i: "i + 1 < length line"
    and nz: "rev line ! i \<noteq> 0" and eq: "rev line ! i = rev line ! (i + 1)"
    by (auto simp: adjacent_equal_iff)
  define j where "j = length line - (i + 2)"
  have j: "j + 1 < length line" "length line - Suc i = j + 1" "length line - Suc (i + 1) = j"
    using i by (simp_all add: j_def)
  have "rev line ! i = line ! (j + 1)" "rev line ! (i + 1) = line ! j"
    using i j by (simp_all add: rev_nth)
  with nz eq j(1) show ?thesis
    unfolding adjacent_equal_iff by metis
qed

lemma adjacent_equal_rev: "adjacent_equal (rev line) \<longleftrightarrow> adjacent_equal line"
  using adjacent_equal_rev_imp [of line] adjacent_equal_rev_imp [of "rev line"] by auto

lemma list_ex_adjacent_equal_map_rev:
  "list_ex adjacent_equal (map rev ls) \<longleftrightarrow> list_ex adjacent_equal ls"
  by (simp add: list_ex_iff adjacent_equal_rev)

lemma spec_merge_pairs_nonzero:
  "0 \<notin> set xs \<Longrightarrow> 0 \<notin> set (spec_merge_pairs xs)"
  by (induction xs rule: spec_merge_pairs.induct) auto

lemma spec_merge_pairs_fixed:
  "distinct_adj xs \<Longrightarrow> spec_merge_pairs xs = xs"
  by (induction xs rule: spec_merge_pairs.induct) auto

lemma slideAndMerge_settled:
  assumes "length row \<le> SIZE" and "\<not> adjacent_equal (slideAndMerge row)"
  shows "slideAndMerge (slideAndMerge row) = slideAndMerge row"
proof -
  define m where "m = spec_merge_pairs (filter (\<lambda>v. v \<noteq> 0) row)"
  define k where "k = SIZE - length m"
  have row': "slideAndMerge row = m @ replicate k 0"
    by (simp add: slideAndMerge_eq_spec spec_slideAndMergeLine_def m_def k_def Let_def)
  have nz: "0 \<notin> set m"
    unfolding m_def by (rule spec_merge_pairs_nonzero) simp
  have "distinct_adj m"
    unfolding distinct_adj_conv_nth
  proof (intro allI impI)
    fix i assume i: "Suc i < length m"
    then have "m ! i \<noteq> 0"
      using nz by (metis Suc_lessD nth_mem)
    moreover have "(m @ replicate k 0) ! i = m ! i" "(m @ replicate k 0) ! (i + 1) = m ! Suc i"
      using i by (simp_all add: nth_append)
    moreover have "i + 1 < length (m @ replicate k 0)"
      using i by simp
    ultimately show "m ! i \<noteq> m ! Suc i"
      using assms(2) unfolding row' adjacent_equal_iff by metis
  qed
  then have fixed: "spec_merge_pairs m = m"
    by (rule spec_merge_pairs_fixed)
  have "filter (\<lambda>v. v \<noteq> 0) (m @ replicate k 0) = m"
    using nz by (auto simp: filter_id_conv)
  then have "slideAndMerge (m @ replicate k 0) = m @ replicate k 0"
    by (simp add: slideAndMerge_eq_spec spec_slideAndMergeLine_def fixed Let_def k_def)
  then show ?thesis
    by (simp add: row')
qed

lemma spec_merge_pairs_shrinks:
  "\<not> distinct_adj xs \<Longrightarrow> length (spec_merge_pairs xs) < length xs"
proof (induction xs rule: spec_merge_pairs.induct)
  case (1 x y rest)
  show ?case
  proof (cases "x = y")
    case True
    have "length (spec_merge_pairs rest) \<le> length rest"
      by (rule length_spec_merge_pairs_le)
    with True show ?thesis by simp
  next
    case False
    with 1 show ?thesis by simp
  qed
qed simp_all

lemma slideAndMerge_unsettled:
  assumes "adjacent_equal (slideAndMerge row)"
  shows "slideAndMerge (slideAndMerge row) \<noteq> slideAndMerge row"
proof -
  define m where "m = spec_merge_pairs (filter (\<lambda>v. v \<noteq> 0) row)"
  define k where "k = SIZE - length m"
  define m' where "m' = spec_merge_pairs m"
  have row': "slideAndMerge row = m @ replicate k 0"
    by (simp add: slideAndMerge_eq_spec spec_slideAndMergeLine_def m_def k_def Let_def)
  have nz: "0 \<notin> set m"
    unfolding m_def by (rule spec_merge_pairs_nonzero) simp
  then have nz': "0 \<notin> set m'"
    unfolding m'_def by (rule spec_merge_pairs_nonzero)
  have keep: "filter (\<lambda>v. v \<noteq> 0) (m @ replicate k 0) = m"
    using nz by (auto simp: filter_id_conv)
  from assms obtain i where i: "i + 1 < length (m @ replicate k 0)"
    and cell: "(m @ replicate k 0) ! i \<noteq> 0"
    and eq: "(m @ replicate k 0) ! i = (m @ replicate k 0) ! (i + 1)"
    unfolding row' adjacent_equal_iff by blast
  have "i + 1 < length m"
  proof (rule ccontr)
    assume "\<not> i + 1 < length m"
    then have "(m @ replicate k 0) ! (i + 1) = 0"
      using i by (simp add: nth_append)
    with cell eq show False by simp
  qed
  moreover from this have "m ! i = m ! Suc i"
    using eq by (simp add: nth_append)
  ultimately have "\<not> distinct_adj m"
    unfolding distinct_adj_conv_nth by auto
  then have shorter: "length m' < length m"
    unfolding m'_def by (rule spec_merge_pairs_shrinks)
  have twice: "slideAndMerge (m @ replicate k 0) = m' @ replicate (SIZE - length m') 0"
    by (simp only: slideAndMerge_eq_spec spec_slideAndMergeLine_def Let_def keep m'_def)
  have "m' @ replicate (SIZE - length m') 0 \<noteq> m @ replicate k 0"
  proof
    assume "m' @ replicate (SIZE - length m') 0 = m @ replicate k 0"
    then have "filter (\<lambda>v. v \<noteq> 0) (m' @ replicate (SIZE - length m') 0) =
        filter (\<lambda>v. v \<noteq> 0) (m @ replicate k 0)"
      by simp
    moreover have "filter (\<lambda>v. v \<noteq> 0) (m' @ replicate (SIZE - length m') 0) = m'"
      using nz' by (auto simp: filter_id_conv)
    ultimately have "m' = m"
      using keep by simp
    with shorter show False by simp
  qed
  then show ?thesis
    unfolding row' twice .
qed

lemma slideAndMerge_settled_iff:
  assumes "length row \<le> SIZE"
  shows "slideAndMerge (slideAndMerge row) = slideAndMerge row \<longleftrightarrow>
     \<not> adjacent_equal (slideAndMerge row)"
  using slideAndMerge_settled [OF assms] slideAndMerge_unsettled [of row] by blast

lemma map_slide_settled_iff:
  assumes "wf_board t"
  shows "map slideAndMerge (map slideAndMerge t) = map slideAndMerge t \<longleftrightarrow>
     \<not> list_ex adjacent_equal (map slideAndMerge t)"
proof -
  have "map slideAndMerge (map slideAndMerge t) = map slideAndMerge t \<longleftrightarrow>
      (\<forall>row \<in> set t. slideAndMerge (slideAndMerge row) = slideAndMerge row)"
    by (simp add: map_eq_conv)
  also have "\<dots> \<longleftrightarrow> (\<forall>row \<in> set t. \<not> adjacent_equal (slideAndMerge row))"
    using assms by (auto simp: slideAndMerge_settled_iff wf_board_row)
  also have "\<dots> \<longleftrightarrow> \<not> list_ex adjacent_equal (map slideAndMerge t)"
    by (simp add: list_ex_iff)
  finally show ?thesis .
qed

lemma map_rev_eq_iff: "map rev a = map rev b \<longleftrightarrow> a = b"
  by (metis map_rev_involution)

lemma spec_transpose_eq_iff:
  assumes "wf_board a" "wf_board b"
  shows "spec_transpose a = spec_transpose b \<longleftrightarrow> a = b"
  using assms by (metis spec_transpose_involution)

lemma spec_move_settled_iff:
  assumes "wf_board b"
  shows "spec_move (spec_move b d) d = spec_move b d \<longleftrightarrow>
     \<not> list_ex adjacent_equal (lines_of (spec_move b d) d)"
proof (cases d)
  case Left
  with assms show ?thesis
    using map_slide_settled_iff [of b] by simp
next
  case Right
  let ?t = "map rev b"
  have wf: "wf_board ?t" using assms by (rule wf_board_map_rev)
  have "spec_move (spec_move b d) d = map rev (map slideAndMerge (map slideAndMerge ?t))"
    unfolding Right spec_move.simps map_rev_involution ..
  moreover have "spec_move b d = map rev (map slideAndMerge ?t)"
    unfolding Right spec_move.simps ..
  moreover have "list_ex adjacent_equal (lines_of (spec_move b d) d) \<longleftrightarrow>
      list_ex adjacent_equal (map slideAndMerge ?t)"
    unfolding Right spec_move.simps lines_of.simps list_ex_adjacent_equal_map_rev ..
  ultimately show ?thesis
    using map_slide_settled_iff [OF wf] by (simp only: map_rev_eq_iff)
next
  case Up
  let ?t = "spec_transpose b"
  have wf: "wf_board ?t" by (rule wf_board_spec_transpose)
  have wf1: "wf_board (map slideAndMerge ?t)"
    using wf by (rule wf_board_map_slide)
  then have wf2: "wf_board (map slideAndMerge (map slideAndMerge ?t))"
    by (rule wf_board_map_slide)
  note wf' = wf1 wf2
  have inv: "spec_transpose (spec_transpose (map slideAndMerge ?t)) = map slideAndMerge ?t"
    using wf'(1) by (rule spec_transpose_involution)
  have "spec_move (spec_move b d) d = spec_transpose (map slideAndMerge (map slideAndMerge ?t))"
    unfolding Up spec_move.simps inv ..
  moreover have "spec_move b d = spec_transpose (map slideAndMerge ?t)"
    unfolding Up spec_move.simps ..
  moreover have "list_ex adjacent_equal (lines_of (spec_move b d) d) \<longleftrightarrow>
      list_ex adjacent_equal (map slideAndMerge ?t)"
    unfolding Up spec_move.simps lines_of.simps inv ..
  ultimately show ?thesis
    using map_slide_settled_iff [OF wf] spec_transpose_eq_iff [OF wf'(2) wf'(1)] by simp
next
  case Down
  let ?t = "map rev (spec_transpose b)"
  have wf: "wf_board ?t"
    by (rule wf_board_map_rev) (rule wf_board_spec_transpose)
  have wf1: "wf_board (map slideAndMerge ?t)"
    using wf by (rule wf_board_map_slide)
  then have wf2: "wf_board (map slideAndMerge (map slideAndMerge ?t))"
    by (rule wf_board_map_slide)
  note wf' = wf_board_map_rev [OF wf1] wf_board_map_rev [OF wf2]
  have inv: "spec_transpose (spec_transpose (map rev (map slideAndMerge ?t))) =
      map rev (map slideAndMerge ?t)"
    using wf'(1) by (rule spec_transpose_involution)
  have "spec_move (spec_move b d) d =
      spec_transpose (map rev (map slideAndMerge (map slideAndMerge ?t)))"
    unfolding Down spec_move.simps inv map_rev_involution ..
  moreover have "spec_move b d = spec_transpose (map rev (map slideAndMerge ?t))"
    unfolding Down spec_move.simps ..
  moreover have "list_ex adjacent_equal (lines_of (spec_move b d) d) \<longleftrightarrow>
      list_ex adjacent_equal (map slideAndMerge ?t)"
    unfolding Down spec_move.simps lines_of.simps inv list_ex_adjacent_equal_map_rev ..
  ultimately show ?thesis
    using map_slide_settled_iff [OF wf] spec_transpose_eq_iff [OF wf'(2) wf'(1)]
    by (simp only: map_rev_eq_iff)
qed

text \<open>
  C5, as stated, fails: a second move in the same direction can merge the tiles that the
  first move produced. The row [2,2,2,2] slides left to [4,4,0,0], and a second move
  left changes it to [8,0,0,0].
\<close>

theorem move_twice_counterexample:
  "wf_board [[2, 2, 2, 2], [0, 0, 0, 0], [0, 0, 0, 0], [0, 0, 0, 0]] \<and>
   snd (move (fst (move [[2, 2, 2, 2], [0, 0, 0, 0], [0, 0, 0, 0], [0, 0, 0, 0]] Left)) Left)"
  by code_simp

text \<open>
  C5, amended. For a SIZE x SIZE board \<open>b\<close> and a direction \<open>d\<close>, a second move in
  direction \<open>d\<close> returns \<open>moved = true\<close> exactly when some line of the moved board along
  \<open>d\<close> (a row for left and right, a column for up and down) holds two adjacent equal
  non-zero cells; it returns \<open>moved = false\<close> exactly when no line holds such a pair.
\<close>

theorem move_twice_iff:
  assumes "wf_board b"
  shows "snd (move (fst (move b d)) d) \<longleftrightarrow>
     list_ex adjacent_equal (lines_of (fst (move b d)) d)"
  using assms spec_move_settled_iff [OF assms, of d]
  by (simp add: move_eq_spec wf_board_spec_move)

theorem move_twice_iff_witness:
  "wf_board [[2, 0, 0, 2], [2, 4, 0, 0], [0, 0, 0, 0], [8, 4, 8, 16]] \<and>
   fst (move [[2, 0, 0, 2], [2, 4, 0, 0], [0, 0, 0, 0], [8, 4, 8, 16]] Up) =
     [[4, 8, 8, 2], [8, 0, 0, 16], [0, 0, 0, 0], [0, 0, 0, 0]] \<and>
   \<not> list_ex adjacent_equal
       (lines_of (fst (move [[2, 0, 0, 2], [2, 4, 0, 0], [0, 0, 0, 0], [8, 4, 8, 16]] Up)) Up) \<and>
   \<not> snd (move (fst (move [[2, 0, 0, 2], [2, 4, 0, 0], [0, 0, 0, 0], [8, 4, 8, 16]] Up)) Up) \<and>
   wf_board [[0, 0, 0, 0], [4, 2, 2, 0], [0, 0, 0, 0], [0, 0, 0, 0]] \<and>
   list_ex adjacent_equal
       (lines_of (fst (move [[0, 0, 0, 0], [4, 2, 2, 0], [0, 0, 0, 0], [0, 0, 0, 0]] Right))
          Right) \<and>
   snd (move (fst (move [[0, 0, 0, 0], [4, 2, 2, 0], [0, 0, 0, 0], [0, 0, 0, 0]] Right)) Right)"
proof -
  let ?b = "[[2, 0, 0, 2], [2, 4, 0, 0], [0, 0, 0, 0], [8, 4, 8, 16 :: int]]"
  have wf: "wf_board ?b"
    by (simp add: wf_board_def SIZE_def)
  have settled: "\<not> list_ex adjacent_equal (lines_of (fst (move ?b Up)) Up)"
    by code_simp
  let ?c = "[[0, 0, 0, 0], [4, 2, 2, 0], [0, 0, 0, 0], [0, 0, 0, 0 :: int]]"
  have wf': "wf_board ?c"
    by (simp add: wf_board_def SIZE_def)
  have pair: "list_ex adjacent_equal (lines_of (fst (move ?c Right)) Right)"
    by code_simp
  have up: "fst (move ?b Up) = [[4, 8, 8, 2], [8, 0, 0, 16], [0, 0, 0, 0], [0, 0, 0, 0]]"
    by code_simp
  from move_twice_iff [OF wf, of Up] move_twice_iff [OF wf', of Right] wf wf' settled pair up
  show ?thesis
    by blast
qed

subsection \<open>addRandomTile\<close>

lemma empty_cols_eq:
  "empty_cols b r c acc = acc @ map (Pair r) (filter (\<lambda>c'. b ! r ! c' = 0) [c..<SIZE])"
proof (induction b r c acc rule: empty_cols.induct)
  case (1 b r c acc)
  show ?case
  proof (cases "c < SIZE")
    case False
    then show ?thesis by (subst empty_cols.simps) simp
  next
    case True
    then have "[c..<SIZE] = c # [c + 1..<SIZE]"
      by (simp add: upt_conv_Cons)
    moreover have "empty_cols b r c acc =
        empty_cols b r (c + 1) (if b ! r ! c = 0 then acc @ [(r, c)] else acc)"
      using True by (subst empty_cols.simps) simp
    ultimately show ?thesis
      using 1 [OF True] by simp
  qed
qed

lemma empty_rows_eq:
  "empty_rows b r acc =
     acc @ concat (map (\<lambda>r'. map (Pair r') (filter (\<lambda>c'. b ! r' ! c' = 0) [0..<SIZE])) [r..<SIZE])"
proof (induction b r acc rule: empty_rows.induct)
  case (1 b r acc)
  show ?case
  proof (cases "r < SIZE")
    case False
    then show ?thesis by (subst empty_rows.simps) simp
  next
    case True
    then have "[r..<SIZE] = r # [r + 1..<SIZE]"
      by (simp add: upt_conv_Cons)
    moreover have "empty_rows b r acc = empty_rows b (r + 1) (empty_cols b r 0 acc)"
      using True by (subst empty_rows.simps) simp
    ultimately show ?thesis
      using 1 [OF True] by (simp add: empty_cols_eq)
  qed
qed

lemma concat_rows_eq_filter_product:
  "concat (map (\<lambda>r. map (Pair r) (filter (\<lambda>c. P r c) cs)) rs) =
     filter (\<lambda>(r, c). P r c) (List.product rs cs)"
  by (induction rs) (simp_all add: filter_map comp_def)

lemma empties_eq:
  "empty_rows b 0 [] =
     filter (\<lambda>(r, c). b ! r ! c = 0) (List.product [0..<SIZE] [0..<SIZE])"
  by (simp add: empty_rows_eq concat_rows_eq_filter_product)


lemma set_empties:
  "set (empty_rows b 0 []) = {(r, c). r < SIZE \<and> c < SIZE \<and> b ! r ! c = 0}"
  by (auto simp: empties_eq)

lemma bit_length_bounds:
  "0 < n \<Longrightarrow> 2 ^ (bit_length n - 1) \<le> n \<and> n < 2 ^ bit_length n"
proof (induction n rule: bit_length.induct)
  case (1 n)
  show ?case
  proof (cases "n div 2 = 0")
    case True
    with 1(2) have "n = Suc 0" by (simp add: div_eq_0_iff) 
    then show ?thesis
      by (simp add: bit_length.simps [of "Suc 0"] bit_length.simps [of 0])
  next
    case False
    then have pos: "0 < n div 2" by simp
    with 1 have IH: "2 ^ (bit_length (n div 2) - 1) \<le> n div 2" "n div 2 < 2 ^ bit_length (n div 2)"
      by simp_all
    have bl: "bit_length n = Suc (bit_length (n div 2))"
      using 1(2) by (subst bit_length.simps) simp
    have "0 < bit_length (n div 2)"
      using pos by (subst bit_length.simps) simp
    then have "(2::nat) ^ (bit_length n - 1) = 2 * 2 ^ (bit_length (n div 2) - 1)"
      unfolding bl by (cases "bit_length (n div 2)") simp_all
    moreover have "n div 2 * 2 \<le> n" "n < Suc (n div 2) * 2"
      by simp_all
    ultimately have "2 ^ (bit_length n - 1) \<le> n"
      using IH(1) by linarith
    moreover have "n < 2 * 2 ^ bit_length (n div 2)"
      using IH(2) by linarith
    ultimately show ?thesis
      by (simp add: bl)
  qed
qed

lemma round_half_even_cases:
  "round_half_even N s = N div 2 ^ s \<or>
   (round_half_even N s = N div 2 ^ s + 1 \<and> 2 ^ s \<le> 2 * (N mod 2 ^ s))"
  unfolding round_half_even_def Let_def by (auto simp: not_less)

lemma round_half_even_upper:
  "2 * (round_half_even N s * 2 ^ s) \<le> 2 * N + 2 ^ s"
proof -
  define q where "q = N div 2 ^ s"
  define r where "r = N mod 2 ^ s"
  define p :: nat where "p = 2 ^ s"
  have N: "N = q * p + r"
    unfolding q_def r_def p_def by (rule div_mult_mod_eq [symmetric])
  from round_half_even_cases [of N s]
  consider "round_half_even N s = q" | "round_half_even N s = q + 1" "p \<le> 2 * r"
    unfolding q_def r_def p_def by blast
  then show ?thesis
  proof cases
    case 1
    have "2 * (q * p) \<le> 2 * N + p"
      using N by simp
    then show ?thesis
      by (simp only: 1 p_def)
  next
    case 2
    have "2 * ((q + 1) * p) = 2 * (q * p) + p + p"
      by (simp add: algebra_simps)
    also have "\<dots> \<le> 2 * (q * p) + 2 * r + p"
      using 2(2) by simp
    finally have "2 * ((q + 1) * p) \<le> 2 * N + p"
      using N by simp
    then show ?thesis
      by (simp only: 2(1) p_def)
  qed
qed


lemma times_length_upper:
  assumes "fst u < 2 ^ 53" "0 < n"
  shows "times_length u n < fst u * n + n"
proof -
  define N where "N = fst u * n"
  define s where "s = bit_length N - 53"
  have tl: "times_length u n = round_half_even N s * 2 ^ s"
    by (simp add: times_length_def Let_def N_def s_def)
  show ?thesis
  proof (cases "s = 0")
    case True
    then have "round_half_even N s = N"
      by (simp add: round_half_even_def)
    with True tl assms(2) show ?thesis
      by (simp add: N_def)
  next
    case False
    then have bl: "bit_length N = 53 + s" "0 < N"
      unfolding s_def by (auto simp: bit_length.simps [of 0] intro: Nat.gr0I)
    then have "(2::nat) ^ (52 + s) \<le> N"
      using bit_length_bounds [of N] by simp
    moreover have "N < 2 ^ 53 * n"
      unfolding N_def using assms by simp
    ultimately have "(2::nat) ^ (52 + s) < 2 ^ 53 * n"
      by linarith
    moreover have "(2::nat) ^ (52 + s) = 2 ^ 53 * (2 ^ s div 2)"
      using False by (cases s) (simp_all add: power_add)
    ultimately have half: "(2::nat) ^ s div 2 < n"
      by simp
    have "2 * (round_half_even N s * 2 ^ s) \<le> 2 * N + 2 ^ s"
      by (rule round_half_even_upper)
    moreover have "(2::nat) ^ s = 2 * (2 ^ s div 2)"
      using False by (cases s) simp_all
    ultimately have "round_half_even N s * 2 ^ s \<le> N + 2 ^ s div 2"
      by linarith
    with half show ?thesis
      unfolding tl N_def by linarith
  qed
qed

lemma random_index_less:
  assumes "unit_double u" "0 < n"
  shows "random_index u n < n"
proof -
  have m: "fst u < 2 ^ 53" and e: "53 \<le> snd u"
    using assms(1) by (simp_all add: unit_double_def)
  have "(2::nat) ^ 53 \<le> 2 ^ snd u"
    using e by (intro power_increasing) simp_all
  with m have "fst u + 1 \<le> 2 ^ snd u"
    by linarith
  then have "(fst u + 1) * n \<le> 2 ^ snd u * n"
    by (rule mult_le_mono1)
  moreover have "times_length u n < fst u * n + n"
    using m assms(2) by (rule times_length_upper)
  ultimately have "times_length u n < n * 2 ^ snd u"
    by (simp add: algebra_simps)
  then show ?thesis
    unfolding random_index_def by (simp add: less_mult_imp_div_less)
qed



lemma draw_below_0_9:
  assumes "unit_double u"
  shows "draw_value u < 9 / 10 \<longleftrightarrow> draw_value u < 8106479329266893 / 2 ^ 53"
proof
  assume "draw_value u < 9 / 10"
  then show "draw_value u < 8106479329266893 / 2 ^ 53"
    by simp
next
  define m where "m = fst u"
  define e where "e = snd u"
  have m: "m < 2 ^ 53" and e: "53 \<le> e"
    using assms(1) by (simp_all add: unit_double_def m_def e_def)
  have val: "draw_value u = real m / 2 ^ e"
    by (simp add: draw_value_def m_def e_def)
  assume below: "draw_value u < 8106479329266893 / 2 ^ 53"
  show "draw_value u < 9 / 10"
  proof (cases "e = 53")
    case True
    with below have "real m < real 8106479329266893"
      unfolding val by simp
    then have "m < 8106479329266893"
      by (simp only: of_nat_less_iff)
    then have "m \<le> 8106479329266892"
      by simp
    then have "real m \<le> real 8106479329266892"
      by (simp only: of_nat_le_iff)
    then show ?thesis
      unfolding val True by simp
  next
    case False
    with e have "54 \<le> e" by simp
    then obtain d where d: "e = 54 + d"
      using le_Suc_ex by blast
    define Q :: real where "Q = 2 ^ 53"
    define D :: real where "D = 2 ^ d"
    have pos: "0 < Q" "0 < D" "1 \<le> D"
      by (simp_all add: Q_def D_def)
    have P: "(2::real) ^ e = Q * (2 * D)"
      unfolding d Q_def D_def by (simp add: power_add)
    have "real m < Q"
      using m unfolding Q_def by (metis of_nat_less_iff of_nat_numeral of_nat_power)
    then have "real m / (Q * (2 * D)) < Q / (Q * (2 * D))"
      using pos by (intro divide_strict_right_mono) simp_all
    also have "\<dots> = 1 / (2 * D)"
      using pos by simp
    also have "\<dots> \<le> 1 / 2"
      using pos by (simp add: field_simps)
    finally have "real m / (Q * (2 * D)) < 1 / 2" .
    then have "real m / (Q * (2 * D)) < 9 / 10"
      by linarith
    then show ?thesis
      unfolding val P .
  qed
qed



lemma addRandomTile_index:
  assumes "k < length (empty_rows b 0 [])" "random_index u1 (length (empty_rows b 0 [])) = k"
  shows "addRandomTile b u1 u2 =
     b[fst (empty_rows b 0 [] ! k) :=
         (b ! fst (empty_rows b 0 [] ! k))[snd (empty_rows b 0 [] ! k) :=
            (if draw_value u2 < 9 / 10 then 2 else 4)]]"
  using assms by (auto simp: addRandomTile_def Let_def split: prod.splits)

lemma addRandomTile_spawn:
  assumes "unit_double u1" "\<exists>r<SIZE. \<exists>c<SIZE. b ! r ! c = 0"
  shows "\<exists>r<SIZE. \<exists>c<SIZE. b ! r ! c = 0 \<and>
     addRandomTile b u1 u2 = b[r := (b ! r)[c := (if draw_value u2 < 9 / 10 then 2 else 4)]]"
proof -
  let ?es = "empty_rows b 0 []"
  define k where "k = random_index u1 (length ?es)"
  have "set ?es \<noteq> {}"
    using assms(2) by (auto simp: set_empties)
  then have "0 < length ?es" by auto
  then have k: "k < length ?es"
    unfolding k_def using assms(1) by (intro random_index_less)
  obtain r c where rc: "?es ! k = (r, c)"
    by (cases "?es ! k")
  have "(r, c) \<in> set ?es"
    using nth_mem [OF k] rc by simp
  then have cell: "r < SIZE" "c < SIZE" "b ! r ! c = 0"
    by (simp_all add: set_empties)
  have "addRandomTile b u1 u2 = b[r := (b ! r)[c := (if draw_value u2 < 9 / 10 then 2 else 4)]]"
    using addRandomTile_index [OF k k_def [symmetric], of u2] rc by simp
  with cell show ?thesis
    by (intro exI [of _ r] conjI exI [of _ c])
qed


text \<open>
  The rounding of the product is visible: with three empty cells the draw
  \<open>6004799503160661 / 2 ^ 53\<close> (the Number 0.6666666666666666, below \<open>2 / 3\<close>) gives
  the product 2 and so the third empty cell, here the cell of row 3, column 3.
\<close>

lemma random_index_rounds_up: "random_index (6004799503160661, 53) 3 = 2"
proof -
  have "bit_length 18014398509481983 = 54"
    by (simp add: bit_length.simps)
  then show ?thesis
    by (simp add: random_index_def times_length_def round_half_even_def Let_def)
qed

lemma addRandomTile_rounds_up:
  "addRandomTile [[2, 4, 2, 4], [4, 2, 4, 2], [2, 4, 2, 4], [4, 0, 0, 0]]
     (6004799503160661, 53) (0, 53) =
   [[2, 4, 2, 4], [4, 2, 4, 2], [2, 4, 2, 4], [4, 0, 0, 2]]"
proof -
  let ?es = "empty_rows [[2, 4, 2, 4], [4, 2, 4, 2], [2, 4, 2, 4], [4, 0, 0, 0]] 0 []"
  have es: "?es = [(3, 1), (3, 2), (3, 3)]"
    by code_simp
  have len: "length ?es = 3"
    unfolding es by simp
  have k: "2 < length ?es"
    unfolding len by simp
  have idx: "random_index (6004799503160661, 53) (length ?es) = 2"
    unfolding len by (rule random_index_rounds_up)
  show ?thesis
    using addRandomTile_index [OF k idx, of "(0, 53)"] by (simp add: es draw_value_def)
qed



subsection \<open>Sums of tile values\<close>

lemma sum_list_spec_merge_pairs: "sum_list (spec_merge_pairs xs) = sum_list xs"
  by (induction xs rule: spec_merge_pairs.induct) simp_all

lemma sum_list_filter_nonzero: "sum_list (filter (\<lambda>v. v \<noteq> 0) xs) = sum_list (xs :: int list)"
  by (induction xs) simp_all

lemma sum_list_slideAndMerge: "sum_list (slideAndMerge row) = sum_list row"
  by (simp add: slideAndMerge_eq_spec spec_slideAndMergeLine_def Let_def
      sum_list_spec_merge_pairs sum_list_filter_nonzero sum_list_replicate)

lemma board_sum_rows: "board_sum b = sum_list (map sum_list b)"
  by (induction b) (simp_all add: board_sum_def)

lemma board_sum_map:
  assumes "\<And>row. sum_list (f row) = sum_list row"
  shows "board_sum (map f b) = board_sum b"
  by (simp add: board_sum_rows comp_def assms)

lemma board_sum_cells:
  assumes "wf_board b"
  shows "board_sum b = (\<Sum>r = 0..<SIZE. \<Sum>c = 0..<SIZE. b ! r ! c)"
proof -
  have "board_sum b = (\<Sum>r = 0..<SIZE. sum_list (b ! r))"
    using assms by (simp add: board_sum_rows sum_list_sum_nth wf_board_length)
  also have "\<dots> = (\<Sum>r = 0..<SIZE. \<Sum>c = 0..<SIZE. b ! r ! c)"
    using assms by (intro sum.cong refl) (simp add: sum_list_sum_nth wf_board_nth)
  finally show ?thesis .
qed

lemma board_sum_spec_transpose:
  assumes "wf_board b"
  shows "board_sum (spec_transpose b) = board_sum b"
proof -
  have "board_sum (spec_transpose b) =
      (\<Sum>r = 0..<SIZE. \<Sum>c = 0..<SIZE. spec_transpose b ! r ! c)"
    by (rule board_sum_cells) (rule wf_board_spec_transpose)
  also have "\<dots> = (\<Sum>r = 0..<SIZE. \<Sum>c = 0..<SIZE. b ! c ! r)"
    by (intro sum.cong refl) (simp add: spec_transpose_nth)
  also have "\<dots> = (\<Sum>c = 0..<SIZE. \<Sum>r = 0..<SIZE. b ! c ! r)"
    by (rule sum.swap)
  also have "\<dots> = board_sum b"
    using assms by (rule board_sum_cells [symmetric])
  finally show ?thesis .
qed

lemma board_sum_spec_move:
  assumes "wf_board b"
  shows "board_sum (spec_move b d) = board_sum b"
proof (cases d)
  case Left
  then show ?thesis
    by (simp add: board_sum_map sum_list_slideAndMerge)
next
  case Right
  then show ?thesis
    by (simp add: board_sum_map sum_list_slideAndMerge sum_list_rev del: map_map)
next
  case Up
  have "board_sum (spec_transpose (map slideAndMerge (spec_transpose b))) =
      board_sum (map slideAndMerge (spec_transpose b))"
    by (intro board_sum_spec_transpose wf_board_map_slide wf_board_spec_transpose)
  with Up assms show ?thesis
    by (simp add: board_sum_map sum_list_slideAndMerge board_sum_spec_transpose)
next
  case Down
  have "board_sum (spec_transpose (map rev (map slideAndMerge (map rev (spec_transpose b))))) =
      board_sum (map rev (map slideAndMerge (map rev (spec_transpose b))))"
    by (intro board_sum_spec_transpose wf_board_map_slide wf_board_map_rev
        wf_board_spec_transpose)
  with Down assms show ?thesis
    by (simp add: board_sum_map sum_list_slideAndMerge sum_list_rev board_sum_spec_transpose
        del: map_map)
qed

lemma sum_list_update_int:
  "i < length xs \<Longrightarrow> sum_list (xs[i := v]) = sum_list xs - xs ! i + (v :: int)"
proof (induction xs arbitrary: i)
  case Nil
  then show ?case by simp
next
  case (Cons x xs)
  then show ?case by (cases i) simp_all
qed

lemma board_sum_update:
  assumes "r < length b" "c < length (b ! r)"
  shows "board_sum (b[r := (b ! r)[c := v]]) = board_sum b - b ! r ! c + v"
proof -
  have "board_sum (b[r := (b ! r)[c := v]]) =
      sum_list ((map sum_list b)[r := sum_list ((b ! r)[c := v])])"
    by (simp add: board_sum_rows map_update)
  also have "\<dots> = sum_list (map sum_list b) - sum_list (b ! r) + sum_list ((b ! r)[c := v])"
    using assms(1) by (simp add: sum_list_update_int)
  also have "\<dots> = board_sum b - b ! r ! c + v"
    using assms(2) by (simp add: sum_list_update_int board_sum_rows)
  finally show ?thesis .
qed

text \<open>
  C8. For a SIZE x SIZE board and any direction, the cells of the board returned by move
  add up to the same total as the cells of the input board; and when addRandomTile is
  applied to a board with an empty cell, the total grows by exactly the value placed,
  which is 2 or 4.
\<close>

theorem sum_invariant:
  assumes "wf_board b" "unit_double u1"
  shows "board_sum (fst (move b d)) = board_sum b \<and>
     ((\<exists>r<SIZE. \<exists>c<SIZE. b ! r ! c = 0) \<longrightarrow>
      (\<exists>r<SIZE. \<exists>c<SIZE. \<exists>v\<in>{2, 4}.
         b ! r ! c = 0 \<and> addRandomTile b u1 u2 ! r ! c = v \<and>
         board_sum (addRandomTile b u1 u2) = board_sum b + v))"
proof (intro conjI impI)
  show "board_sum (fst (move b d)) = board_sum b"
    using assms(1) by (simp add: move_eq_spec board_sum_spec_move)
next
  assume "\<exists>r<SIZE. \<exists>c<SIZE. b ! r ! c = 0"
  then obtain r c where rc: "r < SIZE" "c < SIZE" "b ! r ! c = 0"
    and new: "addRandomTile b u1 u2 = b[r := (b ! r)[c := (if draw_value u2 < 9 / 10 then 2 else 4)]]"
    using addRandomTile_spawn [OF assms(2)] by blast
  define v :: int where "v = (if draw_value u2 < 9 / 10 then 2 else 4)"
  have len: "r < length b" "c < length (b ! r)"
    using assms(1) rc by (simp_all add: wf_board_length wf_board_nth)
  have "v \<in> {2, 4}"
    by (simp add: v_def)
  moreover have "addRandomTile b u1 u2 ! r ! c = v"
    using len by (simp add: new v_def)
  moreover have "board_sum (addRandomTile b u1 u2) = board_sum b + v"
    using len rc(3) by (simp add: new v_def board_sum_update)
  ultimately show "\<exists>r<SIZE. \<exists>c<SIZE. \<exists>v\<in>{2, 4}.
         b ! r ! c = 0 \<and> addRandomTile b u1 u2 ! r ! c = v \<and>
         board_sum (addRandomTile b u1 u2) = board_sum b + v"
    using rc by blast
qed

theorem sum_invariant_witness:
  "wf_board [[2, 0, 2, 4], [0, 4, 0, 0], [2, 4, 8, 0], [2, 0, 8, 4]] \<and>
   unit_double (4503599627370496, 53) \<and>
   (\<exists>r<SIZE. \<exists>c<SIZE. [[2, 0, 2, 4], [0, 4, 0, 0], [2, 4, 8, 0], [2, 0, 8, 4 :: int]] ! r ! c = 0) \<and>
   board_sum (fst (move [[2, 0, 2, 4], [0, 4, 0, 0], [2, 4, 8, 0], [2, 0, 8, 4]] Down)) = 40 \<and>
   (\<exists>v\<in>{2, 4}.
      board_sum (addRandomTile [[2, 0, 2, 4], [0, 4, 0, 0], [2, 4, 8, 0], [2, 0, 8, 4]]
        (4503599627370496, 53) (8556839292003942, 53)) = 40 + v)"
proof -
  let ?b = "[[2, 0, 2, 4], [0, 4, 0, 0], [2, 4, 8, 0], [2, 0, 8, 4 :: int]]"
  have wf: "wf_board ?b"
    by (simp add: wf_board_def SIZE_def)
  have u: "unit_double (4503599627370496, 53)"
    by (simp add: unit_double_def)
  have "?b ! 0 ! 1 = 0" "(0 :: nat) < SIZE" "(1 :: nat) < SIZE"
    by (simp_all add: SIZE_def)
  then have hole: "\<exists>r<SIZE. \<exists>c<SIZE. ?b ! r ! c = 0"
    by blast
  have total: "board_sum ?b = 40"
    by code_simp
  from sum_invariant [OF wf u, of Down "(8556839292003942, 53)"] hole total wf u
  show ?thesis
    by auto
qed

subsection \<open>A board that moved has an empty cell\<close>

lemma spec_merge_pairs_same_length:
  "length (spec_merge_pairs xs) = length xs \<Longrightarrow> spec_merge_pairs xs = xs"
proof (induction xs rule: spec_merge_pairs.induct)
  case (1 x y rest)
  show ?case
  proof (cases "x = y")
    case True
    have "length (spec_merge_pairs rest) \<le> length rest"
      by (rule length_spec_merge_pairs_le)
    with True 1(3) show ?thesis by simp
  next
    case False
    with 1 show ?thesis by simp
  qed
qed simp_all

lemma filter_same_length: "length (filter P xs) = length xs \<Longrightarrow> filter P xs = xs"
proof (induction xs)
  case (Cons x xs)
  have "length (filter P xs) \<le> length xs" by simp
  with Cons show ?case by (cases "P x") auto
qed simp

lemma slideAndMerge_changed_last_zero:
  assumes "length row = SIZE" "slideAndMerge row \<noteq> row"
  shows "slideAndMerge row ! (SIZE - 1) = 0"
proof -
  define f where "f = filter (\<lambda>v. v \<noteq> 0) row"
  define m where "m = spec_merge_pairs f"
  have eq: "slideAndMerge row = m @ replicate (SIZE - length m) 0"
    by (simp add: slideAndMerge_eq_spec spec_slideAndMergeLine_def Let_def m_def f_def)
  have le: "length m \<le> length f" "length f \<le> length row"
    by (simp_all add: m_def f_def length_spec_merge_pairs_le)
  have "length m \<noteq> SIZE"
  proof
    assume full: "length m = SIZE"
    with le assms(1) have "length f = length row" "length m = length f"
      by simp_all
    then have "f = row" "m = f"
      by (simp_all add: f_def m_def filter_same_length spec_merge_pairs_same_length)
    with eq full assms(2) show False by simp
  qed
  with le assms(1) have "length m < SIZE" by simp
  then have "\<not> SIZE - 1 < length m" "SIZE - 1 - length m < SIZE - length m"
    by simp_all
  then show ?thesis
    unfolding eq nth_append by simp
qed

lemma wf_board_zero_iff:
  assumes "wf_board b"
  shows "0 \<in> set (concat b) \<longleftrightarrow> (\<exists>r<SIZE. \<exists>c<SIZE. b ! r ! c = 0)"
proof
  assume "0 \<in> set (concat b)"
  then obtain row where row: "row \<in> set b" "0 \<in> set row" by auto
  then obtain r where r: "r < length b" "b ! r = row"
    by (auto simp: in_set_conv_nth)
  from row(2) obtain c where c: "c < length row" "row ! c = 0"
    by (auto simp: in_set_conv_nth)
  have "r < SIZE" "c < SIZE"
    using assms r c wf_board_row [OF assms row(1)] by (simp_all add: wf_board_length)
  with r c show "\<exists>r<SIZE. \<exists>c<SIZE. b ! r ! c = 0" by blast
next
  assume "\<exists>r<SIZE. \<exists>c<SIZE. b ! r ! c = 0"
  then obtain r c where rc: "r < SIZE" "c < SIZE" "b ! r ! c = 0" by blast
  then have "b ! r \<in> set b" "0 \<in> set (b ! r)"
    using assms by (metis nth_mem wf_board_length, metis nth_mem wf_board_nth)
  then show "0 \<in> set (concat b)" by auto
qed

lemma zero_spec_transpose:
  assumes "wf_board b"
  shows "0 \<in> set (concat (spec_transpose b)) \<longleftrightarrow> 0 \<in> set (concat b)"
  unfolding wf_board_zero_iff [OF assms] wf_board_zero_iff [OF wf_board_spec_transpose]
  by (metis spec_transpose_nth)

lemma zero_map_rev: "0 \<in> set (concat (map rev b)) \<longleftrightarrow> 0 \<in> set (concat b)"
  by simp

lemma map_slide_changed_zero:
  assumes "wf_board t" "map slideAndMerge t \<noteq> t"
  shows "0 \<in> set (concat (map slideAndMerge t))"
proof -
  from assms(2) obtain row where row: "row \<in> set t" "slideAndMerge row \<noteq> row"
    using map_idI [of t slideAndMerge] by blast
  have len: "length row = SIZE"
    using assms(1) row(1) by (rule wf_board_row)
  then have "slideAndMerge row ! (SIZE - 1) = 0"
    using row(2) by (rule slideAndMerge_changed_last_zero)
  moreover have "SIZE - 1 < length (slideAndMerge row)"
    using len by (simp add: length_slideAndMerge SIZE_def)
  ultimately have "0 \<in> set (slideAndMerge row)"
    by (metis nth_mem)
  with row(1) show ?thesis by auto
qed

lemma spec_move_changed_zero:
  assumes "wf_board b" "spec_move b d \<noteq> b"
  shows "0 \<in> set (concat (spec_move b d))"
proof (cases d)
  case Left
  with assms show ?thesis
    by (simp add: map_slide_changed_zero del: set_concat)
next
  case Right
  have "map slideAndMerge (map rev b) \<noteq> map rev b"
    using assms(2) Right by (metis map_rev_involution spec_move.simps(2))
  then have "0 \<in> set (concat (map slideAndMerge (map rev b)))"
    using assms(1) by (intro map_slide_changed_zero wf_board_map_rev)
  then show ?thesis
    unfolding Right spec_move.simps zero_map_rev .
next
  case Up
  let ?t = "spec_transpose b"
  have "map slideAndMerge ?t \<noteq> ?t"
    using assms Up by (metis spec_transpose_involution spec_move.simps(3))
  then have "0 \<in> set (concat (map slideAndMerge ?t))"
    by (intro map_slide_changed_zero wf_board_spec_transpose)
  then show ?thesis
    unfolding Up spec_move.simps
    using zero_spec_transpose [OF wf_board_map_slide [OF wf_board_spec_transpose [of b]]]
    by blast
next
  case Down
  let ?t = "map rev (spec_transpose b)"
  have wf: "wf_board ?t"
    by (rule wf_board_map_rev) (rule wf_board_spec_transpose)
  have "map slideAndMerge ?t \<noteq> ?t"
    using assms Down by (metis spec_transpose_involution map_rev_involution spec_move.simps(4))
  then have "0 \<in> set (concat (map slideAndMerge ?t))"
    using wf by (intro map_slide_changed_zero)
  then have "0 \<in> set (concat (map rev (map slideAndMerge ?t)))"
    unfolding zero_map_rev .
  then show ?thesis
    unfolding Down spec_move.simps
    using zero_spec_transpose [OF wf_board_map_rev [OF wf_board_map_slide [OF wf]]]
    by blast
qed

lemma moved_board_has_empty_cell:
  assumes "wf_board b" "snd (move b d)"
  shows "\<exists>r<SIZE. \<exists>c<SIZE. fst (move b d) ! r ! c = 0"
  using assms spec_move_changed_zero [of b d]
    wf_board_zero_iff [OF wf_board_spec_move [OF assms(1), of d]]
  by (simp add: move_eq_spec)

subsection \<open>handleMove\<close>

lemma foldl_plus_sum_list: "foldl (\<lambda>a b. a + b) (acc :: int) xs = acc + sum_list xs"
  by (induction xs arbitrary: acc) simp_all

text \<open>
  C6. When handleMove is applied to a state that is not game over and move returns
  \<open>moved = true\<close>, the new state holds the board obtained by addRandomTile on the moved
  board (which has an empty cell, so a tile is placed), the score is the sum of all cells
  of that post-spawn board, and gameOver is true exactly when hasMoves is false on the
  post-spawn board.
\<close>

theorem handleMove_accepted:
  assumes "wf_board (board s)" and "\<not> gameOver s" and "snd (move (board s) d)"
  shows "(\<exists>r<SIZE. \<exists>c<SIZE. fst (move (board s) d) ! r ! c = 0) \<and>
     handleMove s d u1 u2 =
       \<lparr>board = addRandomTile (fst (move (board s) d)) u1 u2,
        score = board_sum (addRandomTile (fst (move (board s) d)) u1 u2),
        gameOver = (\<not> hasMoves (addRandomTile (fst (move (board s) d)) u1 u2))\<rparr>"
proof
  show "\<exists>r<SIZE. \<exists>c<SIZE. fst (move (board s) d) ! r ! c = 0"
    using assms(1,3) by (rule moved_board_has_empty_cell)
next
  show "handleMove s d u1 u2 =
       \<lparr>board = addRandomTile (fst (move (board s) d)) u1 u2,
        score = board_sum (addRandomTile (fst (move (board s) d)) u1 u2),
        gameOver = (\<not> hasMoves (addRandomTile (fst (move (board s) d)) u1 u2))\<rparr>"
    using assms(2,3)
    by (cases "move (board s) d")
      (simp add: handleMove_def Let_def foldl_plus_sum_list board_sum_def)
qed

theorem handleMove_accepted_witness:
  "wf_board [[2, 4, 2, 4], [4, 2, 4, 2], [2, 4, 2, 4], [4, 8, 2, 2]] \<and>
   \<not> gameOver \<lparr>board = [[2, 4, 2, 4], [4, 2, 4, 2], [2, 4, 2, 4], [4, 8, 2, 2]],
       score = 52, gameOver = False\<rparr> \<and>
   snd (move [[2, 4, 2, 4], [4, 2, 4, 2], [2, 4, 2, 4], [4, 8, 2, 2]] Left) \<and>
   hasMoves (fst (move [[2, 4, 2, 4], [4, 2, 4, 2], [2, 4, 2, 4], [4, 8, 2, 2]] Left)) \<and>
   handleMove \<lparr>board = [[2, 4, 2, 4], [4, 2, 4, 2], [2, 4, 2, 4], [4, 8, 2, 2]],
       score = 52, gameOver = False\<rparr> Left (0, 53) (0, 53) =
     \<lparr>board = [[2, 4, 2, 4], [4, 2, 4, 2], [2, 4, 2, 4], [4, 8, 4, 2]],
      score = 54, gameOver = True\<rparr>"
proof -
  let ?b = "[[2, 4, 2, 4], [4, 2, 4, 2], [2, 4, 2, 4], [4, 8, 2, 2 :: int]]"
  let ?s = "\<lparr>board = ?b, score = 52, gameOver = False\<rparr>"
  have wf: "wf_board (board ?s)"
    by (simp add: wf_board_def SIZE_def)
  have running: "\<not> gameOver ?s"
    by simp
  have moved: "snd (move (board ?s) Left)"
    by code_simp
  have slid: "fst (move (board ?s) Left) =
      [[2, 4, 2, 4], [4, 2, 4, 2], [2, 4, 2, 4], [4, 8, 4, 0]]"
    by code_simp
  let ?es = "empty_rows [[2, 4, 2, 4], [4, 2, 4, 2], [2, 4, 2, 4], [4, 8, 4, 0]] 0 []"
  have holes: "?es = [(3, 3)]"
    by code_simp
  have len: "length ?es = 1"
    unfolding holes by simp
  have k: "0 < length ?es"
    unfolding len by simp
  have "random_index (0, 53) 1 = 0"
    by (simp add: random_index_def times_length_def round_half_even_def Let_def
        bit_length.simps [of 0])
  then have first: "random_index (0, 53) (length ?es) = 0"
    unfolding len .
  have added: "addRandomTile (fst (move (board ?s) Left)) (0, 53) (0, 53) =
      [[2, 4, 2, 4], [4, 2, 4, 2], [2, 4, 2, 4], [4, 8, 4, 2]]"
    unfolding slid using addRandomTile_index [OF k first, of "(0, 53)"]
    by (simp add: holes draw_value_def)
  have sum: "board_sum [[2, 4, 2, 4], [4, 2, 4, 2], [2, 4, 2, 4], [4, 8, 4, 2]] = 54"
    by code_simp
  have stuck: "\<not> hasMoves [[2, 4, 2, 4], [4, 2, 4, 2], [2, 4, 2, 4], [4, 8, 4, 2]]"
    by code_simp
  have before: "hasMoves (fst (move ?b Left))"
    by code_simp
  have "handleMove ?s Left (0, 53) (0, 53) =
     \<lparr>board = [[2, 4, 2, 4], [4, 2, 4, 2], [2, 4, 2, 4], [4, 8, 4, 2]],
      score = 54, gameOver = True\<rparr>"
    unfolding handleMove_accepted [OF wf running moved, of "(0, 53)" "(0, 53)", THEN conjunct2]
      added sum
    using stuck by simp
  with wf running moved before show ?thesis
    by simp
qed

text \<open>
  C7. When move returns \<open>moved = false\<close>, handleMove leaves the state as it is: no tile
  is spawned, and board, score and gameOver keep their values.
\<close>

theorem handleMove_rejected:
  assumes "\<not> snd (move (board s) d)"
  shows "handleMove s d u1 u2 = s"
  using assms by (cases "move (board s) d") (simp add: handleMove_def)

theorem handleMove_rejected_witness:
  "\<not> snd (move [[2, 0, 0, 0], [4, 2, 0, 0], [0, 0, 0, 0], [0, 0, 0, 0]] Left) \<and>
   handleMove \<lparr>board = [[2, 0, 0, 0], [4, 2, 0, 0], [0, 0, 0, 0], [0, 0, 0, 0]],
       score = 8, gameOver = False\<rparr> Left (4503599627370496, 53) (4503599627370496, 53) =
     \<lparr>board = [[2, 0, 0, 0], [4, 2, 0, 0], [0, 0, 0, 0], [0, 0, 0, 0]],
      score = 8, gameOver = False\<rparr>"
proof -
  let ?s = "\<lparr>board = [[2, 0, 0, 0], [4, 2, 0, 0], [0, 0, 0, 0], [0, 0, 0, 0]],
       score = 8, gameOver = False\<rparr>"
  have still: "\<not> snd (move (board ?s) Left)"
    by code_simp
  from handleMove_rejected [OF still, of "(4503599627370496, 53)" "(4503599627370496, 53)"] still
  show ?thesis
    by simp
qed

lemma handleMove_gameOver: "gameOver s \<Longrightarrow> handleMove s d u1 u2 = s"
  by (simp add: handleMove_def)

text \<open>
  C10. Once gameOver is true, every further directional input leaves the state unchanged:
  handleMove returns before it calls move, so board, score and gameOver never change
  again, whatever inputs follow.
\<close>

theorem handleMoves_gameOver:
  assumes "gameOver s"
  shows "handleMoves s inputs = s"
  using assms
proof (induction inputs arbitrary: s)
  case Nil
  show ?case by simp
next
  case (Cons input inputs)
  obtain d u1 u2 where "input = (d, u1, u2)"
    by (cases input) auto
  with Cons show ?case
    by (simp add: handleMove_gameOver)
qed

theorem handleMoves_gameOver_witness:
  "gameOver \<lparr>board = [[2, 0, 2, 4], [0, 4, 0, 0], [2, 4, 8, 0], [2, 0, 8, 4]],
       score = 40, gameOver = True\<rparr> \<and>
   snd (move [[2, 0, 2, 4], [0, 4, 0, 0], [2, 4, 8, 0], [2, 0, 8, 4]] Left) \<and>
   handleMoves \<lparr>board = [[2, 0, 2, 4], [0, 4, 0, 0], [2, 4, 8, 0], [2, 0, 8, 4]],
       score = 40, gameOver = True\<rparr> [(Left, (0, 53), (0, 53)), (Up, (4503599627370496, 53), (4503599627370496, 53))] =
     \<lparr>board = [[2, 0, 2, 4], [0, 4, 0, 0], [2, 4, 8, 0], [2, 0, 8, 4]],
      score = 40, gameOver = True\<rparr>"
proof -
  let ?s = "\<lparr>board = [[2, 0, 2, 4], [0, 4, 0, 0], [2, 4, 8, 0], [2, 0, 8, 4]],
       score = 40, gameOver = True\<rparr>"
  have over: "gameOver ?s"
    by simp
  have "snd (move [[2, 0, 2, 4], [0, 4, 0, 0], [2, 4, 8, 0], [2, 0, 8, 4]] Left)"
    by code_simp
  with handleMoves_gameOver [OF over, of "[(Left, (0, 53), (0, 53)), (Up, (4503599627370496, 53), (4503599627370496, 53))]"] over
  show ?thesis
    by simp
qed

end
